theory Spec2Isabelle
  imports Main "HOL-Library.Sublist"
begin

section \<open>JavaScript values used by the relay's Redis service\<close>

text \<open>
  The relay's \<^verbatim>\<open>redis.ts\<close> works on JavaScript strings and numbers. A string is a
  \<^typ>\<open>string\<close>. A number that \<^verbatim>\<open>parseInt\<close> produces is either \<^verbatim>\<open>NaN\<close> or an
  integer; integers stand for themselves, which is exact for doubles up to
  \<open>2^53 - 1\<close> (\<^verbatim>\<open>Number.MAX_SAFE_INTEGER\<close>). Statements about decimal identifiers
  are therefore confined to that range.
\<close>

datatype jsnum = NaN | Num int

text \<open>\<^verbatim>\<open>a > b\<close> on numbers: false as soon as one side is \<^verbatim>\<open>NaN\<close>.\<close>

fun js_gt :: "jsnum \<Rightarrow> jsnum \<Rightarrow> bool" where
  "js_gt (Num a) (Num b) = (b < a)"
| "js_gt _ _ = False"

definition MAX_SAFE_INTEGER :: nat where
  "MAX_SAFE_INTEGER = 2 ^ 53 - 1"

text \<open>
  \<^verbatim>\<open>s.split(sep)\<close> for a one-character separator: the pieces between the separators,
  never an empty array (\<^verbatim>\<open>"".split("-")\<close> is \<^verbatim>\<open>[""]\<close>).
\<close>

fun split_on :: "char \<Rightarrow> string \<Rightarrow> string list" where
  "split_on sep [] = [[]]"
| "split_on sep (c # cs) =
     (if c = sep then [] # split_on sep cs
      else (case split_on sep cs of
              [] \<Rightarrow> [[c]]
            | p # ps \<Rightarrow> (c # p) # ps))"

text \<open>
  Reading index \<open>i\<close> of an array, or a position of a destructuring pattern:
  \<^verbatim>\<open>undefined\<close> (here \<open>None\<close>) beyond the end.
\<close>

fun nth_opt :: "'a list \<Rightarrow> nat \<Rightarrow> 'a option" where
  "nth_opt [] i = None"
| "nth_opt (x # xs) 0 = Some x"
| "nth_opt (x # xs) (Suc i) = nth_opt xs i"

subsection \<open>\<^verbatim>\<open>parseInt(s, 10)\<close> and \<^verbatim>\<open>encoding.utf8ToNumber\<close>\<close>

definition is_space :: "char \<Rightarrow> bool" where
  "is_space c = (c \<in> set [CHR 0x09, CHR 0x0A, CHR 0x0B, CHR 0x0C, CHR 0x0D, CHR '' ''])"

definition is_digit :: "char \<Rightarrow> bool" where
  "is_digit c = (48 \<le> (of_char c :: nat) \<and> (of_char c :: nat) \<le> 57)"

definition digit_val :: "char \<Rightarrow> nat" where
  "digit_val c = of_char c - 48"

definition digits_val :: "string \<Rightarrow> nat" where
  "digits_val ds = foldl (\<lambda>acc c. acc * 10 + digit_val c) 0 ds"

text \<open>
  \<^verbatim>\<open>parseInt(s, 10)\<close>: leading white space is dropped, one sign is read, then the
  longest run of decimal digits; without a digit the result is \<^verbatim>\<open>NaN\<close>. Whatever
  follows the digits is ignored.
\<close>

definition parseInt10 :: "string \<Rightarrow> jsnum" where
  "parseInt10 s =
     (let t = dropWhile is_space s;
          (sign, u) = (case t of
                         [] \<Rightarrow> (1, t)
                       | c # r \<Rightarrow> if c = CHR ''-'' then (- 1, r)
                                  else if c = CHR ''+'' then (1, r)
                                  else (1, t));
          ds = takeWhile is_digit u
      in if ds = [] then NaN else Num (sign * int (digits_val ds)))"

text \<open>
  \<^verbatim>\<open>utf8ToNumber(x)\<close> is \<^verbatim>\<open>parseInt(x, 10)\<close>. The destructuring in
  \<^verbatim>\<open>RedisStreamID\<close> can hand it \<^verbatim>\<open>undefined\<close>, which \<^verbatim>\<open>parseInt\<close> first turns into
  the string \<^verbatim>\<open>"undefined"\<close>.
\<close>

definition utf8ToNumber :: "string option \<Rightarrow> jsnum" where
  "utf8ToNumber x = parseInt10 (case x of None \<Rightarrow> ''undefined'' | Some s \<Rightarrow> s)"

subsection \<open>Decimal rendering of a number\<close>

definition digit_char :: "nat \<Rightarrow> char" where
  "digit_char d = char_of (48 + d)"

fun dec_str :: "nat \<Rightarrow> string" where
  "dec_str n = (if n < 10 then [digit_char n] else dec_str (n div 10) @ [digit_char (n mod 10)])"

declare dec_str.simps [simp del]

section \<open>Stream identifiers: \<^verbatim>\<open>RedisStreamID\<close>\<close>

text \<open>
  \<^verbatim>\<open>class RedisStreamID extends String\<close>: the string itself and the two private
  fields the constructor computes from it.
\<close>

record RedisStreamID =
  id_text :: string
  sequence :: jsnum
  timestamp :: jsnum

definition new_RedisStreamID :: "string \<Rightarrow> RedisStreamID" where
  "new_RedisStreamID v =
     (let parts = split_on CHR ''-'' v;
          timestamp' = nth_opt parts 0;
          sequence' = nth_opt parts 1
      in \<lparr> id_text = v,
           sequence = utf8ToNumber sequence',
           timestamp = utf8ToNumber timestamp' \<rparr>)"

definition isHigher :: "RedisStreamID \<Rightarrow> RedisStreamID \<Rightarrow> bool" where
  "isHigher this other =
     (let parts = split_on CHR ''-'' (id_text other);
          ts = nth_opt parts 0;
          seq = nth_opt parts 1;
          sequence' = utf8ToNumber seq;
          timestamp' = utf8ToNumber ts
      in if js_gt (timestamp this) timestamp' then True
         else if js_gt (sequence this) sequence' then True
         else False)"

text \<open>The identifier string \<^verbatim>\<open>"{timestamp}-{sequence}"\<close> of two natural numbers.\<close>

definition stream_id_text :: "nat \<Rightarrow> nat \<Rightarrow> string" where
  "stream_id_text t s = dec_str t @ ''-'' @ dec_str s"

section \<open>The backing store\<close>

text \<open>
  The Redis server is a collaborator of the relay. Its commands are modelled as far as
  \<^verbatim>\<open>redis.ts\<close> uses them: one key space whose values are strings, sets, lists or
  streams, a time to live per key, and a clock in milliseconds. A command applied to a
  key that holds another kind of value fails with \<^verbatim>\<open>WRONGTYPE\<close>; a failed command
  leaves the store as it was. \<^verbatim>\<open>TypeError\<close> is the JavaScript exception of reading a
  property of \<^verbatim>\<open>undefined\<close>.
\<close>

datatype error = WRONGTYPE | TypeError

record stream_entry =
  entry_id :: "nat \<times> nat"
  entry_fields :: "(string \<times> string) list"

text \<open>
  A set is the list of its members in the order in which a scan visits them (Redis
  leaves that order open); the list never repeats a member. A list starts at its
  head. A stream starts at its oldest entry.
\<close>

datatype redis_value =
    RString string
  | RSet "string list"
  | RList "string list"
  | RStream "stream_entry list"

record redis =
  keyspace :: "string \<rightharpoonup> redis_value"
  expires :: "string \<rightharpoonup> nat"
  clock :: nat

definition empty_redis :: redis where
  "empty_redis = \<lparr> keyspace = Map.empty, expires = Map.empty, clock = 0 \<rparr>"

text \<open>A key whose time to live has run out is gone for every command.\<close>

definition lookup :: "redis \<Rightarrow> string \<Rightarrow> redis_value option" where
  "lookup db k =
     (case expires db k of
        None \<Rightarrow> keyspace db k
      | Some t \<Rightarrow> if t \<le> clock db then None else keyspace db k)"

text \<open>Writing a value keeps the time to live of a key that exists.\<close>

definition store :: "redis \<Rightarrow> string \<Rightarrow> redis_value \<Rightarrow> redis" where
  "store db k v =
     (case lookup db k of
        None \<Rightarrow> db\<lparr> keyspace := (keyspace db)(k \<mapsto> v), expires := (expires db)(k := None) \<rparr>
      | Some _ \<Rightarrow> db\<lparr> keyspace := (keyspace db)(k \<mapsto> v) \<rparr>)"

definition remove :: "redis \<Rightarrow> string \<Rightarrow> redis" where
  "remove db k = db\<lparr> keyspace := (keyspace db)(k := None), expires := (expires db)(k := None) \<rparr>"

text \<open>Time passing: the relay has no part in it.\<close>

definition advance :: "nat \<Rightarrow> redis \<Rightarrow> redis" where
  "advance ms db = db\<lparr> clock := clock db + ms \<rparr>"

subsection \<open>Keys\<close>

text \<open>
  \<^verbatim>\<open>EXPIRE key seconds\<close>: false for a key that does not exist; a time to live that
  is not positive deletes the key at once.
\<close>

definition expire :: "redis \<Rightarrow> string \<Rightarrow> int \<Rightarrow> error + bool \<times> redis" where
  "expire db k seconds =
     (case lookup db k of
        None \<Rightarrow> Inr (False, db)
      | Some _ \<Rightarrow>
          if seconds \<le> 0 then Inr (True, remove db k)
          else Inr (True, db\<lparr> expires := (expires db)(k \<mapsto> clock db + nat seconds * 1000) \<rparr>))"

text \<open>\<^verbatim>\<open>DEL key\<close>: the number of keys removed; a missing key is no error.\<close>

definition del :: "redis \<Rightarrow> string \<Rightarrow> error + nat \<times> redis" where
  "del db k =
     (case lookup db k of
        None \<Rightarrow> Inr (0, remove db k)
      | Some _ \<Rightarrow> Inr (1, remove db k))"

subsection \<open>Strings\<close>

text \<open>\<^verbatim>\<open>SET key value\<close> replaces a value of any kind and clears the time to live.\<close>

definition set_cmd :: "redis \<Rightarrow> string \<Rightarrow> string \<Rightarrow> error + unit \<times> redis" where
  "set_cmd db k v = Inr ((), store (remove db k) k (RString v))"

text \<open>\<^verbatim>\<open>GET key\<close>: \<^verbatim>\<open>null\<close> (here \<open>None\<close>) for a missing key.\<close>

definition get_cmd :: "redis \<Rightarrow> string \<Rightarrow> error + string option \<times> redis" where
  "get_cmd db k =
     (case lookup db k of
        None \<Rightarrow> Inr (None, db)
      | Some (RString v) \<Rightarrow> Inr (Some v, db)
      | Some _ \<Rightarrow> Inl WRONGTYPE)"

subsection \<open>Lists\<close>

definition lPush :: "redis \<Rightarrow> string \<Rightarrow> string \<Rightarrow> error + nat \<times> redis" where
  "lPush db k v =
     (case lookup db k of
        None \<Rightarrow> Inr (1, store db k (RList [v]))
      | Some (RList xs) \<Rightarrow> Inr (Suc (length xs), store db k (RList (v # xs)))
      | Some _ \<Rightarrow> Inl WRONGTYPE)"

text \<open>
  \<^verbatim>\<open>LRANGE key start stop\<close>: both ends inclusive, a negative index counts from the
  tail.
\<close>

definition list_range :: "string list \<Rightarrow> int \<Rightarrow> int \<Rightarrow> string list" where
  "list_range xs start stop =
     (let n = int (length xs);
          a = (if start < 0 then max 0 (n + start) else start);
          b = (if stop < 0 then n + stop else min stop (n - 1))
      in if b < a then [] else take (nat (b - a + 1)) (drop (nat a) xs))"

definition lRange :: "redis \<Rightarrow> string \<Rightarrow> int \<Rightarrow> int \<Rightarrow> error + string list \<times> redis" where
  "lRange db k start stop =
     (case lookup db k of
        None \<Rightarrow> Inr ([], db)
      | Some (RList xs) \<Rightarrow> Inr (list_range xs start stop, db)
      | Some _ \<Rightarrow> Inl WRONGTYPE)"

subsection \<open>Glob patterns\<close>

text \<open>
  The \<^verbatim>\<open>MATCH\<close> option of a scan takes a glob-style pattern: \<^verbatim>\<open>*\<close> stands for any run
  of characters, \<^verbatim>\<open>?\<close> for one character, \<^verbatim>\<open>[...]\<close> for one character of a class
  (\<^verbatim>\<open>^\<close> negates it, \<^verbatim>\<open>a-z\<close> is a range), and a backslash takes the next character
  literally. The definitions follow the matcher of the server; \<open>class_scan c p\<close>
  reads a class up to its closing bracket and returns whether \<open>c\<close> is in it, and the
  pattern behind the bracket.
\<close>

definition glob_special :: "char \<Rightarrow> bool" where
  "glob_special c = (c \<in> set [CHR ''*'', CHR ''?'', CHR ''['', CHR 0x5C])"

definition in_range :: "char \<Rightarrow> char \<Rightarrow> char \<Rightarrow> bool" where
  "in_range lo hi c =
     (min (of_char lo) (of_char hi) \<le> (of_char c :: nat)
      \<and> (of_char c :: nat) \<le> max (of_char lo) (of_char hi))"

fun class_scan :: "char \<Rightarrow> string \<Rightarrow> bool \<times> string" where
  "class_scan c [] = (False, [])"
| "class_scan c [p] = (if p = CHR '']'' then (False, []) else (p = c, []))"
| "class_scan c (p # q # ps) =
     (if p = CHR 0x5C then (fst (class_scan c ps) \<or> q = c, snd (class_scan c ps))
      else if p = CHR '']'' then (False, q # ps)
      else if q = CHR ''-'' \<and> ps \<noteq> [] then
        (case ps of
           [] \<Rightarrow> (False, [])
         | e # r \<Rightarrow>
             (fst (class_scan c r) \<or> in_range p e c, snd (class_scan c r)))
      else (fst (class_scan c (q # ps)) \<or> p = c, snd (class_scan c (q # ps))))"

definition class_negated :: "string \<Rightarrow> bool" where
  "class_negated p = (case p of [] \<Rightarrow> False | q # r \<Rightarrow> q = CHR ''^'')"

definition class_body :: "string \<Rightarrow> string" where
  "class_body p = (case p of [] \<Rightarrow> [] | q # r \<Rightarrow> if q = CHR ''^'' then r else p)"

text \<open>
  \<open>glob_rest p s\<close> matches a pattern against what is left of the string; once the
  string is used up only stars may remain in the pattern.
\<close>

function glob_rest :: "string \<Rightarrow> string \<Rightarrow> bool" where
  "glob_rest [] s = (s = [])"
| "glob_rest (p # ps) [] = (p = CHR ''*'' \<and> glob_rest ps [])"
| "glob_rest (p # ps) (c # t) =
     (if p = CHR ''*'' then ps = [] \<or> glob_rest ps (c # t) \<or> (t \<noteq> [] \<and> glob_rest (p # ps) t)
      else if p = CHR ''?'' then glob_rest ps t
      else if p = CHR ''['' then
        (fst (class_scan c (class_body ps)) \<noteq> class_negated ps)
        \<and> glob_rest (snd (class_scan c (class_body ps))) t
      else if p = CHR 0x5C \<and> ps \<noteq> [] then hd ps = c \<and> glob_rest (tl ps) t
      else p = c \<and> glob_rest ps t)"
  by pat_completeness auto
termination
proof (relation "measure (\<lambda>(p, s). length p + length s)")
  fix p :: char and ps :: string and c :: char and t :: string
  have scan: "length (snd (class_scan c u)) \<le> length u" for u
  proof (induction c u rule: class_scan.induct)
    case (3 c p q ps)
    then show ?case
      by (cases ps)
        (auto simp del: class_scan.simps(3) simp add: class_scan.simps(3) [of c p q])
  qed auto
  have body: "length (class_body ps) \<le> length ps"
    by (simp add: class_body_def split: list.splits)
  have "length (snd (class_scan c (class_body ps))) \<le> length ps"
    using scan [of "class_body ps"] body by linarith
  then show "((snd (class_scan c (class_body ps)), t), p # ps, c # t)
             \<in> measure (\<lambda>(p, s). length p + length s)"
    by simp
qed auto

text \<open>An empty string matches the empty pattern only.\<close>

definition glob_match :: "string \<Rightarrow> string \<Rightarrow> bool" where
  "glob_match p s = (if s = [] then p = [] else glob_rest p s)"

subsection \<open>Sets\<close>

text \<open>\<^verbatim>\<open>SADD key member\<close>: the number of members added, none for one the set has.\<close>

definition sAdd :: "redis \<Rightarrow> string \<Rightarrow> string \<Rightarrow> error + nat \<times> redis" where
  "sAdd db k v =
     (case lookup db k of
        None \<Rightarrow> Inr (1, store db k (RSet [v]))
      | Some (RSet ms) \<Rightarrow>
          if v \<in> set ms then Inr (0, db) else Inr (1, store db k (RSet (ms @ [v])))
      | Some _ \<Rightarrow> Inl WRONGTYPE)"

definition sMembers :: "redis \<Rightarrow> string \<Rightarrow> error + string list \<times> redis" where
  "sMembers db k =
     (case lookup db k of
        None \<Rightarrow> Inr ([], db)
      | Some (RSet ms) \<Rightarrow> Inr (ms, db)
      | Some _ \<Rightarrow> Inl WRONGTYPE)"

text \<open>
  \<^verbatim>\<open>sScanIterator(key, {MATCH: pattern})\<close>: the members that match the pattern, in
  the order of the scan.
\<close>

definition sScanIterator :: "redis \<Rightarrow> string \<Rightarrow> string \<Rightarrow> error + string list \<times> redis" where
  "sScanIterator db k pattern =
     (case lookup db k of
        None \<Rightarrow> Inr ([], db)
      | Some (RSet ms) \<Rightarrow> Inr (filter (glob_match pattern) ms, db)
      | Some _ \<Rightarrow> Inl WRONGTYPE)"

subsection \<open>Streams\<close>

text \<open>
  \<^verbatim>\<open>XADD key * field value ...\<close>: the server assigns the identifier, the clock's
  milliseconds with sequence 0, or the last identifier's successor when the clock has
  not passed it.
\<close>

definition last_id :: "stream_entry list \<Rightarrow> nat \<times> nat" where
  "last_id es = (if es = [] then (0, 0) else entry_id (last es))"

definition next_id :: "nat \<Rightarrow> stream_entry list \<Rightarrow> nat \<times> nat" where
  "next_id now es =
     (if fst (last_id es) < now then (now, 0)
      else (fst (last_id es), Suc (snd (last_id es))))"

definition xAdd ::
  "redis \<Rightarrow> string \<Rightarrow> (string \<times> string) list \<Rightarrow> error + (nat \<times> nat) \<times> redis" where
  "xAdd db k fs =
     (case lookup db k of
        None \<Rightarrow>
          Inr (next_id (clock db) [],
               store db k (RStream [\<lparr> entry_id = next_id (clock db) [], entry_fields = fs \<rparr>]))
      | Some (RStream es) \<Rightarrow>
          Inr (next_id (clock db) es,
               store db k (RStream (es @ [\<lparr> entry_id = next_id (clock db) es, entry_fields = fs \<rparr>])))
      | Some _ \<Rightarrow> Inl WRONGTYPE)"

text \<open>The entries of a topic's log, none when the key holds no stream.\<close>

definition stream_log :: "redis \<Rightarrow> string \<Rightarrow> stream_entry list" where
  "stream_log db k = (case lookup db k of Some (RStream es) \<Rightarrow> es | _ \<Rightarrow> [])"

text \<open>
  The reply of \<^verbatim>\<open>xRead\<close> as the client hands it over: \<^verbatim>\<open>null\<close> (here \<open>None\<close>), or
  for each stream its name and the messages read, each with its identifier and its
  fields.
\<close>

record xread_message =
  message_id :: string
  message_fields :: "(string \<times> string) list"

record xread_stream =
  stream_name :: string
  stream_messages :: "xread_message list"

type_synonym xread_reply = "xread_stream list option"

section \<open>The relay's \<^verbatim>\<open>RedisService\<close>\<close>

text \<open>
  Every method takes the store and returns its result with the store it leaves, or
  the error that the rejected promise carries. What the class gets from elsewhere is a
  parameter: \<open>sha256\<close> (\<^verbatim>\<open>./utils\<close>), \<open>maxTTL\<close> (\<^verbatim>\<open>server.config.maxTTL\<close>), the
  encoder's \<open>encode\<close> and \<open>decode\<close> (\<^verbatim>\<open>./encoder\<close>), and \<^verbatim>\<open>JSON.stringify\<close> and
  \<^verbatim>\<open>JSON.parse\<close> behind \<^verbatim>\<open>safeJsonStringify\<close> and \<^verbatim>\<open>safeJsonParse\<close>. Logging is left
  out.
\<close>

text \<open>
  An object with a \<^verbatim>\<open>topic\<close>: a \<^verbatim>\<open>LegacySocketMessage\<close>, a \<^verbatim>\<open>Notification\<close> or a
  \<^verbatim>\<open>Subscription\<close>; their other fields are the record's extension.
\<close>

record topic_object =
  topic :: string

record PublishParams = topic_object +
  message :: string
  ttl :: int

record IridiumV1MessageOptions =
  prompt :: bool

definition SIX_HOURS :: int where
  "SIX_HOURS = 21600"

text \<open>A number inside a template string, for an integer.\<close>

definition number_to_string :: "int \<Rightarrow> string" where
  "number_to_string i = (if i < 0 then CHR ''-'' # dec_str (nat (- i)) else dec_str (nat i))"

text \<open>
  \<^verbatim>\<open>safeJsonParse\<close> returns what \<^verbatim>\<open>JSON.parse\<close> returns, and the string itself when
  \<^verbatim>\<open>JSON.parse\<close> throws (here \<open>None\<close>).
\<close>

datatype 'j parsed = Parsed 'j | Unparsed string

definition safeJsonParse :: "(string \<Rightarrow> 'j option) \<Rightarrow> string \<Rightarrow> 'j parsed" where
  "safeJsonParse json_parse data =
     (case json_parse data of Some v \<Rightarrow> Parsed v | None \<Rightarrow> Unparsed data)"

subsection \<open>Message cache\<close>

definition setMessage ::
  "(string \<Rightarrow> string) \<Rightarrow> redis \<Rightarrow> PublishParams \<Rightarrow> error + unit \<times> redis" where
  "setMessage sha256 db params =
     (let key = ''message:'' @ topic params;
          hash = sha256 (message params);
          val = hash @ '':'' @ message params
      in case sAdd db key val of
           Inl e \<Rightarrow> Inl e
         | Inr (_, db1) \<Rightarrow>
             (case expire db1 key (ttl params) of
                Inl e \<Rightarrow> Inl e
              | Inr (_, db2) \<Rightarrow> Inr ((), db2)))"

text \<open>The result is \<^verbatim>\<open>undefined\<close> (here \<open>None\<close>) when the scan yields no member.\<close>

definition getMessage :: "redis \<Rightarrow> string \<Rightarrow> string \<Rightarrow> error + string option \<times> redis" where
  "getMessage db topic' hash =
     (case sScanIterator db (''message:'' @ topic') (hash @ '':*'') of
        Inl e \<Rightarrow> Inl e
      | Inr (members, db1) \<Rightarrow>
          (case members of
             [] \<Rightarrow> Inr (None, db1)
           | member # _ \<Rightarrow> Inr (nth_opt (split_on CHR '':'' member) 1, db1)))"

text \<open>
  The store hands every member over as a string, so the test \<^verbatim>\<open>m != null\<close> passes
  for each of them; a member without a colon contributes \<^verbatim>\<open>undefined\<close>.
\<close>

definition getMessages :: "redis \<Rightarrow> string \<Rightarrow> error + string option list \<times> redis" where
  "getMessages db topic' =
     (case sMembers db (''message:'' @ topic') of
        Inl e \<Rightarrow> Inl e
      | Inr (result, db1) \<Rightarrow>
          Inr (if result \<noteq> [] then map (\<lambda>m. nth_opt (split_on CHR '':'' m) 1) result else [],
               db1))"

subsection \<open>Legacy and notification queues\<close>

definition setLegacyCached ::
  "('a topic_object_scheme \<Rightarrow> string) \<Rightarrow> redis \<Rightarrow> 'a topic_object_scheme
     \<Rightarrow> error + unit \<times> redis" where
  "setLegacyCached safeJsonStringify db msg =
     (case lPush db (''legacy:'' @ topic msg) (safeJsonStringify msg) of
        Inl e \<Rightarrow> Inl e
      | Inr (_, db1) \<Rightarrow>
          (case expire db1 (''legacy:'' @ topic msg) SIX_HOURS of
             Inl e \<Rightarrow> Inl e
           | Inr (_, db2) \<Rightarrow> Inr ((), db2)))"

text \<open>
  The \<^verbatim>\<open>del\<close> is not awaited: its outcome does not reach the caller. The client sends
  its commands in the order of the calls, so the deletion comes before whatever the
  relay asks next.
\<close>

definition getLegacyCached ::
  "(string \<Rightarrow> 'j option) \<Rightarrow> redis \<Rightarrow> string \<Rightarrow> error + 'j parsed list \<times> redis" where
  "getLegacyCached json_parse db topic' =
     (case lRange db (''legacy:'' @ topic') 0 (- 1) of
        Inl e \<Rightarrow> Inl e
      | Inr (result, db1) \<Rightarrow>
          (let messages = (if result \<noteq> [] then map (safeJsonParse json_parse) result else [])
           in case del db1 (''legacy:'' @ topic') of
                Inl e \<Rightarrow> Inr (messages, db1)
              | Inr (_, db2) \<Rightarrow> Inr (messages, db2)))"

definition setNotification ::
  "('a topic_object_scheme \<Rightarrow> string) \<Rightarrow> redis \<Rightarrow> 'a topic_object_scheme
     \<Rightarrow> error + unit \<times> redis" where
  "setNotification safeJsonStringify db notification =
     (case lPush db (''notification:'' @ topic notification) (safeJsonStringify notification) of
        Inl e \<Rightarrow> Inl e
      | Inr (_, db1) \<Rightarrow> Inr ((), db1))"

definition getNotification ::
  "(string \<Rightarrow> 'j option) \<Rightarrow> redis \<Rightarrow> string \<Rightarrow> error + 'j parsed list \<times> redis" where
  "getNotification json_parse db topic' =
     (case lRange db (''notification:'' @ topic') 0 (- 1) of
        Inl e \<Rightarrow> Inl e
      | Inr (result, db1) \<Rightarrow>
          Inr (if result \<noteq> [] then map (safeJsonParse json_parse) result else [], db1))"

subsection \<open>Pending requests\<close>

definition setPendingRequest ::
  "(string \<Rightarrow> string) \<Rightarrow> int \<Rightarrow> redis \<Rightarrow> string \<Rightarrow> int \<Rightarrow> string \<Rightarrow> error + unit \<times> redis" where
  "setPendingRequest sha256 maxTTL db topic' id' message' =
     (let key = ''pending:'' @ number_to_string id';
          hash = sha256 message';
          val = topic' @ '':'' @ hash
      in case set_cmd db key val of
           Inl e \<Rightarrow> Inl e
         | Inr (_, db1) \<Rightarrow>
             (case expire db1 key maxTTL of
                Inl e \<Rightarrow> Inl e
              | Inr (_, db2) \<Rightarrow> Inr ((), db2)))"

text \<open>\<^verbatim>\<open>data ? data : ""\<close>: \<^verbatim>\<open>null\<close> and the empty string both give the empty string.\<close>

definition getPendingRequest :: "redis \<Rightarrow> int \<Rightarrow> error + string \<times> redis" where
  "getPendingRequest db id' =
     (case get_cmd db (''pending:'' @ number_to_string id') of
        Inl e \<Rightarrow> Inl e
      | Inr (data, db1) \<Rightarrow>
          Inr (case data of None \<Rightarrow> [] | Some d \<Rightarrow> if d \<noteq> [] then d else [], db1))"

definition deletePendingRequest :: "redis \<Rightarrow> int \<Rightarrow> error + unit \<times> redis" where
  "deletePendingRequest db id' =
     (case del db (''pending:'' @ number_to_string id') of
        Inl e \<Rightarrow> Inl e
      | Inr (_, db1) \<Rightarrow> Inr ((), db1))"

subsection \<open>Stream publisher and listener\<close>

text \<open>The parameter \<open>opts\<close> is optional (\<open>None\<close> when the caller leaves it out).\<close>

definition publish ::
  "(string \<Rightarrow> IridiumV1MessageOptions \<Rightarrow> string) \<Rightarrow> redis \<Rightarrow> string \<Rightarrow> string
     \<Rightarrow> IridiumV1MessageOptions option \<Rightarrow> error + unit \<times> redis" where
  "publish encode db topic' message' opts =
     (let payload = encode message' \<lparr> prompt = True \<rparr>
      in case xAdd db topic' [(''payload'', payload)] of
           Inl e \<Rightarrow> Inl e
         | Inr (_, db1) \<Rightarrow> Inr ((), db1))"

text \<open>
  What a listener does to the outside, in order: a blocking \<^verbatim>\<open>xRead\<close> on a key from
  an identifier, and a \<^verbatim>\<open>NETWORK_EVENTS.message\<close> event with topic, message and
  prompt flag on the server's event bus.
\<close>

datatype effect = XRead string string | Emit string string bool

fun is_XRead :: "effect \<Rightarrow> bool" where
  "is_XRead (XRead k i) = True"
| "is_XRead (Emit t m p) = False"

fun is_Emit :: "effect \<Rightarrow> bool" where
  "is_Emit (XRead k i) = False"
| "is_Emit (Emit t m p) = True"

text \<open>
  The payload the listener takes from a reply: the empty string unless the reply has
  a stream, else the \<^verbatim>\<open>payload\<close> field of the stream's first message, \<^verbatim>\<open>undefined\<close>
  (here \<open>None\<close>) when the message has no such field. A stream without a message makes
  the property access throw.
\<close>

definition reply_payload :: "xread_reply \<Rightarrow> error + string option" where
  "reply_payload response =
     (case response of
        None \<Rightarrow> Inr (Some [])
      | Some [] \<Rightarrow> Inr (Some [])
      | Some (messages # _) \<Rightarrow>
          (case stream_messages messages of
             [] \<Rightarrow> Inl TypeError
           | m # _ \<Rightarrow> Inr (map_of (message_fields m) ''payload'')))"

text \<open>A decoder that throws (here \<open>None\<close>) leaves the event out.\<close>

definition emitWakuMessage ::
  "(string option \<Rightarrow> (string \<times> IridiumV1MessageOptions) option) \<Rightarrow> string \<Rightarrow> string option
     \<Rightarrow> effect list" where
  "emitWakuMessage decode topic' payload =
     (case decode payload of
        None \<Rightarrow> []
      | Some (message', opts) \<Rightarrow> [Emit topic' message' (prompt opts)])"

text \<open>
  One call of \<^verbatim>\<open>streamListener\<close>, given the reply that its \<^verbatim>\<open>xRead\<close> resolves to: the
  effects of the call and the error it ends with, if any.
\<close>

definition streamListener ::
  "(string option \<Rightarrow> (string \<times> IridiumV1MessageOptions) option) \<Rightarrow> string \<Rightarrow> xread_reply
     \<Rightarrow> effect list \<times> error option" where
  "streamListener decode topic' response =
     (case reply_payload response of
        Inl e \<Rightarrow> ([XRead topic' ''$''], Some e)
      | Inr payload \<Rightarrow>
          ([XRead topic' ''$'']
             @ (if payload \<noteq> Some [] then emitWakuMessage decode topic' payload else []),
           None))"

text \<open>\<^verbatim>\<open>initialize\<close>: each subscribe event calls the listener once for its topic.\<close>

definition on_subscribe ::
  "(string option \<Rightarrow> (string \<times> IridiumV1MessageOptions) option) \<Rightarrow> 'a topic_object_scheme
     \<Rightarrow> xread_reply \<Rightarrow> effect list \<times> error option" where
  "on_subscribe decode subscription response = streamListener decode (topic subscription) response"

subsection \<open>Sequences of calls, and what a store holds for a topic\<close>

text \<open>A run of \<^verbatim>\<open>setMessage\<close> calls; a call that fails leaves the store as it was.\<close>

fun setMessages :: "(string \<Rightarrow> string) \<Rightarrow> redis \<Rightarrow> PublishParams list \<Rightarrow> redis" where
  "setMessages sha256 db [] = db"
| "setMessages sha256 db (p # ps) =
     (case setMessage sha256 db p of
        Inl e \<Rightarrow> setMessages sha256 db ps
      | Inr (_, db1) \<Rightarrow> setMessages sha256 db1 ps)"

text \<open>A run of \<^verbatim>\<open>setLegacyCached\<close> calls, up to the first one that fails.\<close>

fun setLegacyCachedAll ::
  "('a topic_object_scheme \<Rightarrow> string) \<Rightarrow> redis \<Rightarrow> 'a topic_object_scheme list
     \<Rightarrow> error + unit \<times> redis" where
  "setLegacyCachedAll safeJsonStringify db [] = Inr ((), db)"
| "setLegacyCachedAll safeJsonStringify db (m # ms) =
     (case setLegacyCached safeJsonStringify db m of
        Inl e \<Rightarrow> Inl e
      | Inr (_, db1) \<Rightarrow> setLegacyCachedAll safeJsonStringify db1 ms)"

definition message_members :: "redis \<Rightarrow> string \<Rightarrow> string list" where
  "message_members db topic' =
     (case lookup db (''message:'' @ topic') of Some (RSet ms) \<Rightarrow> ms | _ \<Rightarrow> [])"

text \<open>The hash component of a member \<^verbatim>\<open>hash:body\<close>: what stands before the first colon.\<close>

definition member_hash :: "string \<Rightarrow> string" where
  "member_hash m = takeWhile (\<lambda>c. c \<noteq> CHR '':'') m"

definition list_at :: "redis \<Rightarrow> string \<Rightarrow> string list" where
  "list_at db k = (case lookup db k of Some (RList xs) \<Rightarrow> xs | _ \<Rightarrow> [])"

text \<open>A key that a list command accepts: missing, or holding a list.\<close>

definition list_key :: "redis \<Rightarrow> string \<Rightarrow> bool" where
  "list_key db k = (case lookup db k of None \<Rightarrow> True | Some (RList xs) \<Rightarrow> True | Some _ \<Rightarrow> False)"

text \<open>A key that a set command accepts: missing, or holding a set.\<close>

definition set_key :: "redis \<Rightarrow> string \<Rightarrow> bool" where
  "set_key db k = (case lookup db k of None \<Rightarrow> True | Some (RSet ms) \<Rightarrow> True | Some _ \<Rightarrow> False)"

text \<open>
  What the message set of a topic holds when only \<^verbatim>\<open>setMessage\<close> wrote it, for bodies
  from a set \<open>B\<close>: members \<^verbatim>\<open>hash:body\<close>, none of them twice.
\<close>

definition cache_invariant :: "(string \<Rightarrow> string) \<Rightarrow> string set \<Rightarrow> redis \<Rightarrow> string \<Rightarrow> bool" where
  "cache_invariant sha256 B db T =
     (set_key db (''message:'' @ T)
      \<and> distinct (message_members db T)
      \<and> set (message_members db T) \<subseteq> (\<lambda>b. sha256 b @ '':'' @ b) ` B)"

section \<open>Instances for the evaluated examples\<close>

text \<open>
  The examples below need a digest, a JSON codec and an envelope codec that compute.
  \<open>hex_digest\<close> writes every character as two hexadecimal digits: like a SHA-256 digest
  it is hexadecimal text, and it has no collisions. It stands in for \<open>sha256\<close> in
  examples only; every general statement is about an arbitrary \<open>sha256\<close>.
\<close>

definition hex_char :: "nat \<Rightarrow> char" where
  "hex_char d = ''0123456789abcdef'' ! d"

definition hex_digest :: "string \<Rightarrow> string" where
  "hex_digest s = concat (map (\<lambda>c. [hex_char (of_char c div 16), hex_char (of_char c mod 16)]) s)"

text \<open>
  JSON for objects with the one field \<^verbatim>\<open>topic\<close>, written as
  \<^verbatim>\<open>JSON.stringify\<close> writes them when the topic needs no escape; every other string is
  refused by this parser.
\<close>

definition plain_text :: "string \<Rightarrow> bool" where
  "plain_text s = (\<forall>c \<in> set s. c \<noteq> CHR 0x22 \<and> c \<noteq> CHR 0x5C \<and> 32 \<le> (of_char c :: nat))"

definition topic_json_prefix :: string where
  "topic_json_prefix = ''{'' @ [CHR 0x22] @ ''topic'' @ [CHR 0x22] @ '':'' @ [CHR 0x22]"

definition topic_json_suffix :: string where
  "topic_json_suffix = [CHR 0x22] @ ''}''"

definition topic_json_stringify :: "topic_object \<Rightarrow> string" where
  "topic_json_stringify m = topic_json_prefix @ topic m @ topic_json_suffix"

definition topic_json_parse :: "string \<Rightarrow> topic_object option" where
  "topic_json_parse s =
     (let n = length s; inner = take (n - 12) (drop 10 s)
      in if 12 \<le> n \<and> take 10 s = topic_json_prefix \<and> drop (n - 2) s = topic_json_suffix
            \<and> plain_text inner
         then Some \<lparr> topic = inner \<rparr> else None)"

text \<open>
  A store with a legacy list and a notification list for topic \<^verbatim>\<open>t\<close>, each holding one
  JSON record and one string that is no JSON, and a message set with one member of the
  form \<^verbatim>\<open>hash:body\<close>, one without a colon and the empty one.
\<close>

definition example_store :: redis where
  "example_store =
     store (store (store empty_redis
       ''legacy:t'' (RList [topic_json_stringify \<lparr> topic = ''t'' \<rparr>, ''{bad'']))
       ''notification:t'' (RList [''{bad'', topic_json_stringify \<lparr> topic = ''t'' \<rparr>]))
       ''message:t'' (RSet [''6869:hi'', ''nocolon'', []])"

text \<open>
  Modelled from the spec: the Envelope Codec (\<^verbatim>\<open>IridiumEncoder\<close> of \<^verbatim>\<open>./encoder\<close>, whose
  source is not at hand). The spec asks that \<open>decode (encode x o) = (x, o)\<close>; this
  codec writes the prompt flag as one character before the body.
\<close>

definition flag_encode :: "string \<Rightarrow> IridiumV1MessageOptions \<Rightarrow> string" where
  "flag_encode body opts = (if prompt opts then CHR ''1'' else CHR ''0'') # body"

definition flag_decode :: "string option \<Rightarrow> (string \<times> IridiumV1MessageOptions) option" where
  "flag_decode payload =
     (case payload of
        None \<Rightarrow> None
      | Some [] \<Rightarrow> None
      | Some (c # body) \<Rightarrow>
          if c = CHR ''1'' then Some (body, \<lparr> prompt = True \<rparr>)
          else if c = CHR ''0'' then Some (body, \<lparr> prompt = False \<rparr>)
          else None)"

section \<open>Stream identifiers: what \<^verbatim>\<open>isHigher\<close> decides\<close>

lemma is_digit_digit_char: "d < 10 \<Longrightarrow> is_digit (digit_char d)"
  by (simp add: is_digit_def digit_char_def)

lemma digit_val_digit_char: "d < 10 \<Longrightarrow> digit_val (digit_char d) = d"
  by (simp add: digit_val_def digit_char_def)

lemma dec_str_digits: "c \<in> set (dec_str n) \<Longrightarrow> is_digit c"
  by (induction n rule: dec_str.induct)
    (subst (asm) dec_str.simps, auto simp: is_digit_digit_char split: if_splits)

lemma dec_str_nonempty: "dec_str n \<noteq> []"
  by (subst dec_str.simps) simp

lemma digits_val_snoc: "digits_val (ds @ [c]) = digits_val ds * 10 + digit_val c"
  by (simp add: digits_val_def)

lemma digits_val_dec_str: "digits_val (dec_str n) = n"
proof (induction n rule: dec_str.induct)
  case (1 n)
  show ?case
  proof (cases "n < 10")
    case True
    then show ?thesis
      by (subst dec_str.simps) (simp add: digits_val_def digit_val_digit_char)
  next
    case False
    with 1 have "digits_val (dec_str (n div 10)) = n div 10" by simp
    with False show ?thesis
      by (subst dec_str.simps) (simp add: digits_val_snoc digit_val_digit_char)
  qed
qed

lemma digit_not_special:
  "is_digit c \<Longrightarrow> \<not> is_space c \<and> c \<noteq> CHR ''-'' \<and> c \<noteq> CHR ''+''"
  by (auto simp: is_digit_def is_space_def)

lemma parseInt10_digits:
  assumes "ds \<noteq> []" and "\<And>c. c \<in> set ds \<Longrightarrow> is_digit c"
  shows "parseInt10 ds = Num (int (digits_val ds))"
proof -
  from assms obtain c r where ds: "ds = c # r" by (cases ds) auto
  with assms(2) have c: "is_digit c" by simp
  then have "dropWhile is_space ds = ds" using ds digit_not_special by simp
  moreover have "takeWhile is_digit ds = ds" using assms(2) by (simp add: takeWhile_eq_all_conv)
  ultimately show ?thesis
    using ds digit_not_special [OF c] by (simp add: parseInt10_def Let_def)
qed

lemma parseInt10_dec_str: "parseInt10 (dec_str n) = Num (int n)"
  by (simp add: parseInt10_digits dec_str_nonempty dec_str_digits digits_val_dec_str)

lemma split_on_nonempty: "split_on sep s \<noteq> []"
  by (induction s) (auto split: list.splits)

lemma split_on_no_sep: "sep \<notin> set s \<Longrightarrow> split_on sep s = [s]"
  by (induction s) auto

lemma split_on_first: "sep \<notin> set p \<Longrightarrow> split_on sep (p @ sep # r) = p # split_on sep r"
  by (induction p) auto

lemma dash_not_in_dec_str: "CHR ''-'' \<notin> set (dec_str n)"
  using dec_str_digits digit_not_special by blast

lemma split_stream_id_text: "split_on CHR ''-'' (stream_id_text t s) = [dec_str t, dec_str s]"
  by (simp add: stream_id_text_def split_on_first split_on_no_sep dash_not_in_dec_str)

lemma new_RedisStreamID_decimal:
  "new_RedisStreamID (stream_id_text t s) =
     \<lparr> id_text = stream_id_text t s, sequence = Num (int s), timestamp = Num (int t) \<rparr>"
  by (simp add: new_RedisStreamID_def split_stream_id_text utf8ToNumber_def parseInt10_dec_str)

lemma js_gt_irrefl: "\<not> js_gt x x"
  by (cases x) auto

text \<open>
  Claim C2. For two identifiers \<open>a\<close> and \<open>b\<close>, \<open>a.isHigher(b)\<close> is true exactly when the
  timestamp of \<open>a\<close> is greater than that of \<open>b\<close> or the sequence of \<open>a\<close> is greater
  than that of \<open>b\<close>, the two clauses taken independently: first for any two strings,
  on the numbers the constructor parses from them, then for the identifiers
  \<^verbatim>\<open>"ta-sa"\<close> and \<^verbatim>\<open>"tb-sb"\<close> of natural numbers in the safe range. So equal
  timestamps with a lower sequence give false, and a lower timestamp with a higher
  sequence gives true.
\<close>

theorem isHigher_two_clause_or:
  assumes "ta \<le> MAX_SAFE_INTEGER" and "sa \<le> MAX_SAFE_INTEGER"
      and "tb \<le> MAX_SAFE_INTEGER" and "sb \<le> MAX_SAFE_INTEGER"
  shows "(isHigher (new_RedisStreamID a) (new_RedisStreamID b)
            = (js_gt (timestamp (new_RedisStreamID a)) (timestamp (new_RedisStreamID b))
               \<or> js_gt (sequence (new_RedisStreamID a)) (sequence (new_RedisStreamID b))))
         \<and> (isHigher (new_RedisStreamID (stream_id_text ta sa))
                      (new_RedisStreamID (stream_id_text tb sb))
            = (tb < ta \<or> sb < sa))"
proof
  show "isHigher (new_RedisStreamID a) (new_RedisStreamID b)
          = (js_gt (timestamp (new_RedisStreamID a)) (timestamp (new_RedisStreamID b))
             \<or> js_gt (sequence (new_RedisStreamID a)) (sequence (new_RedisStreamID b)))"
    by (simp add: isHigher_def new_RedisStreamID_def Let_def)
  show "isHigher (new_RedisStreamID (stream_id_text ta sa))
                 (new_RedisStreamID (stream_id_text tb sb))
          = (tb < ta \<or> sb < sa)"
    by (simp add: isHigher_def new_RedisStreamID_decimal split_stream_id_text
        utf8ToNumber_def parseInt10_dec_str)
qed

theorem isHigher_two_clause_or_witness:
  "\<not> isHigher (new_RedisStreamID (stream_id_text 7 1)) (new_RedisStreamID (stream_id_text 7 2))
   \<and> isHigher (new_RedisStreamID (stream_id_text 6 9)) (new_RedisStreamID (stream_id_text 7 2))"
  using isHigher_two_clause_or [of 7 1 7 2, THEN conjunct2]
    isHigher_two_clause_or [of 6 9 7 2, THEN conjunct2]
  by (simp add: MAX_SAFE_INTEGER_def)

text \<open>
  Claim C10. \<^verbatim>\<open>isHigher\<close> is not asymmetric, so it is no strict order: each of
  \<^verbatim>\<open>"2-1"\<close> and \<^verbatim>\<open>"1-2"\<close> is higher than the other. It is irreflexive: no identifier is
  higher than itself.
\<close>

theorem isHigher_not_asymmetric:
  "isHigher (new_RedisStreamID ''2-1'') (new_RedisStreamID ''1-2'')
   \<and> isHigher (new_RedisStreamID ''1-2'') (new_RedisStreamID ''2-1'')
   \<and> (\<forall>a. \<not> isHigher (new_RedisStreamID a) (new_RedisStreamID a))"
proof -
  have 1: "new_RedisStreamID ''2-1'' = \<lparr> id_text = ''2-1'', sequence = Num 1, timestamp = Num 2 \<rparr>"
    by (simp add: new_RedisStreamID_def utf8ToNumber_def parseInt10_def is_space_def
        is_digit_def digits_val_def digit_val_def)
  have 2: "new_RedisStreamID ''1-2'' = \<lparr> id_text = ''1-2'', sequence = Num 2, timestamp = Num 1 \<rparr>"
    by (simp add: new_RedisStreamID_def utf8ToNumber_def parseInt10_def is_space_def
        is_digit_def digits_val_def digit_val_def)
  have 3: "\<not> isHigher (new_RedisStreamID a) (new_RedisStreamID a)" for a
    by (simp add: isHigher_def new_RedisStreamID_def Let_def js_gt_irrefl)
  show ?thesis
    using 3 by (simp add: 1 2 isHigher_def utf8ToNumber_def parseInt10_def is_space_def
        is_digit_def digits_val_def digit_val_def)
qed

section \<open>The store: what a command leaves at each key\<close>

lemma lookup_store: "lookup (store db k v) k' = (if k' = k then Some v else lookup db k')"
  by (auto simp: lookup_def store_def split: option.splits if_splits)

lemma lookup_remove: "lookup (remove db k) k' = (if k' = k then None else lookup db k')"
  by (auto simp: lookup_def remove_def split: option.splits)

lemma lookup_set_expiry:
  assumes "0 < seconds" and "lookup db k = Some v"
  shows "lookup (db\<lparr> expires := (expires db)(k \<mapsto> clock db + nat seconds * 1000) \<rparr>) k'
           = lookup db k'"
  using assms by (auto simp: lookup_def split: option.splits if_splits)

lemma expire_positive:
  assumes "0 < seconds" and "lookup db k = Some v"
  shows "\<exists>db'. expire db k seconds = Inr (True, db') \<and> (\<forall>k'. lookup db' k' = lookup db k')"
  using assms lookup_set_expiry [OF assms] by (simp add: expire_def)

lemma expire_not_positive:
  assumes "seconds \<le> 0" and "lookup db k = Some v"
  shows "expire db k seconds = Inr (True, remove db k)"
  using assms by (simp add: expire_def)

lemma expire_missing: "lookup db k = None \<Longrightarrow> expire db k seconds = Inr (False, db)"
  by (simp add: expire_def)

lemma lookup_advance_expired:
  "expires db k = Some t \<Longrightarrow> t \<le> clock db + ms \<Longrightarrow> lookup (advance ms db) k = None"
  by (simp add: lookup_def advance_def)

lemma lookup_advance_alive:
  "expires db k = Some t \<Longrightarrow> clock db + ms < t \<Longrightarrow> lookup (advance ms db) k = keyspace db k"
  by (simp add: lookup_def advance_def)

lemma list_range_all: "list_range xs 0 (- 1) = xs"
  by (simp add: list_range_def Let_def)

lemma topic_json_round_trip:
  assumes "plain_text (topic m)"
  shows "topic_json_parse (topic_json_stringify m) = Some m"
proof -
  have p: "length topic_json_prefix = 10" and q: "length topic_json_suffix = 2"
    by (simp_all add: topic_json_prefix_def topic_json_suffix_def)
  have "topic_json_parse (topic_json_prefix @ topic m @ topic_json_suffix) = Some \<lparr> topic = topic m \<rparr>"
    using assms by (simp add: topic_json_parse_def Let_def p q)
  then show ?thesis by (simp add: topic_json_stringify_def)
qed

section \<open>Pending requests\<close>

text \<open>
  Claim C7. With a positive \<^verbatim>\<open>maxTTL\<close> in the server's configuration, for every
  store, topic \<open>t\<close>, id \<open>i\<close> and body: \<^verbatim>\<open>setPendingRequest(t, i, body)\<close> succeeds and
  \<^verbatim>\<open>getPendingRequest(i)\<close> then returns \<open>t\<close>, a colon and the digest of the body; and
  from any store, whether it holds the id or not, \<^verbatim>\<open>deletePendingRequest(i)\<close> succeeds
  and \<^verbatim>\<open>getPendingRequest(i)\<close> then returns the empty string, as a result and not as
  an error.
\<close>

theorem pending_request_round_trip:
  assumes "0 < maxTTL"
  shows "(\<exists>db1. setPendingRequest sha256 maxTTL db t i body = Inr ((), db1)
               \<and> getPendingRequest db1 i = Inr (t @ '':'' @ sha256 body, db1))
         \<and> (\<exists>db2. deletePendingRequest db i = Inr ((), db2)
               \<and> getPendingRequest db2 i = Inr ([], db2))"
proof
  let ?k = "''pending:'' @ number_to_string i"
  let ?v = "t @ '':'' @ sha256 body"
  let ?db0 = "store (remove db ?k) ?k (RString ?v)"
  have l0: "lookup ?db0 ?k = Some (RString ?v)" by (simp add: lookup_store)
  from expire_positive [OF assms l0] obtain db1
    where e: "expire ?db0 ?k maxTTL = Inr (True, db1)" and l1: "\<forall>k'. lookup db1 k' = lookup ?db0 k'"
    by blast
  have "setPendingRequest sha256 maxTTL db t i body = Inr ((), db1)"
    using e by (simp add: setPendingRequest_def set_cmd_def Let_def)
  moreover have "getPendingRequest db1 i = Inr (?v, db1)"
    using l1 l0 by (simp add: getPendingRequest_def get_cmd_def)
  ultimately show "\<exists>db1. setPendingRequest sha256 maxTTL db t i body = Inr ((), db1)
               \<and> getPendingRequest db1 i = Inr (t @ '':'' @ sha256 body, db1)"
    by blast
  have "deletePendingRequest db i = Inr ((), remove db ?k)"
    by (simp add: deletePendingRequest_def del_def split: option.splits)
  moreover have "getPendingRequest (remove db ?k) i = Inr ([], remove db ?k)"
    by (simp add: getPendingRequest_def get_cmd_def lookup_remove)
  ultimately show "\<exists>db2. deletePendingRequest db i = Inr ((), db2)
               \<and> getPendingRequest db2 i = Inr ([], db2)"
    by blast
qed

theorem pending_request_round_trip_witness:
  "(0::int) < 3600
   \<and> (\<exists>db1. setPendingRequest hex_digest 3600 empty_redis ''T'' 42 ''hello'' = Inr ((), db1)
         \<and> getPendingRequest db1 42 = Inr (''T'' @ '':'' @ hex_digest ''hello'', db1))
   \<and> (\<exists>db2. deletePendingRequest empty_redis 42 = Inr ((), db2)
         \<and> getPendingRequest db2 42 = Inr ([], db2))"
  using pending_request_round_trip [of 3600 hex_digest empty_redis "''T''" 42 "''hello''"]
  by simp

section \<open>Notifications\<close>

text \<open>
  Claim C8. A \<^verbatim>\<open>getNotification(t)\<close> that returns leaves the whole store as it was,
  the notification list and every other key; it returns the stored list, each entry
  through \<^verbatim>\<open>safeJsonParse\<close>; and a second call right after it returns the same list.
\<close>

theorem getNotification_reads_only:
  assumes "getNotification json_parse db t = Inr (ns, db')"
  shows "db' = db
         \<and> ns = map (safeJsonParse json_parse) (list_at db (''notification:'' @ t))
         \<and> getNotification json_parse db' t = Inr (ns, db')"
  using assms
  by (auto simp: getNotification_def lRange_def list_at_def list_range_all
      split: option.splits redis_value.splits)

theorem getNotification_reads_only_witness:
  "getNotification topic_json_parse
     (store empty_redis ''notification:t''
        (RList [topic_json_stringify \<lparr> topic = ''t'' \<rparr>, ''{bad'']))
     ''t''
   = Inr ([Parsed \<lparr> topic = ''t'' \<rparr>, Unparsed ''{bad''],
          store empty_redis ''notification:t''
            (RList [topic_json_stringify \<lparr> topic = ''t'' \<rparr>, ''{bad'']))"
proof -
  let ?db = "store empty_redis ''notification:t''
               (RList [topic_json_stringify \<lparr> topic = ''t'' \<rparr>, ''{bad''])"
  have 1: "topic_json_parse (topic_json_stringify \<lparr> topic = ''t'' \<rparr>) = Some \<lparr> topic = ''t'' \<rparr>"
    by (rule topic_json_round_trip) (simp add: plain_text_def)
  have 2: "topic_json_parse ''{bad'' = None"
    by (simp add: topic_json_parse_def)
  have h: "getNotification topic_json_parse ?db ''t''
           = Inr ([Parsed \<lparr> topic = ''t'' \<rparr>, Unparsed ''{bad''], ?db)"
    by (simp add: getNotification_def lRange_def lookup_store list_range_all safeJsonParse_def 1 2)
  from getNotification_reads_only [OF h] show ?thesis by simp
qed

section \<open>Publishing\<close>

text \<open>
  Claim C1. \<^verbatim>\<open>publish(topic, body, opts)\<close> that succeeds appends exactly one entry to
  the topic's log, and the entry's \<^verbatim>\<open>payload\<close> field is the body encoded with the
  prompt flag true, whatever \<open>opts\<close> holds: the method never reads \<open>opts\<close>. With
  \<^verbatim>\<open>{prompt: false}\<close> the envelope still carries a true flag.
\<close>

theorem publish_appends_with_prompt_true:
  assumes "publish encode db t body opts = Inr (u, db')"
  shows "stream_log db' t
         = stream_log db t
           @ [\<lparr> entry_id = next_id (clock db) (stream_log db t),
                entry_fields = [(''payload'', encode body \<lparr> prompt = True \<rparr>)] \<rparr>]"
  using assms
  by (auto simp: publish_def xAdd_def stream_log_def lookup_store Let_def
      split: option.splits redis_value.splits)

theorem publish_appends_with_prompt_true_witness:
  "publish flag_encode empty_redis ''t'' ''ping'' (Some \<lparr> prompt = False \<rparr>)
     = Inr ((), store empty_redis ''t''
                  (RStream [\<lparr> entry_id = (0, 1), entry_fields = [(''payload'', ''1ping'')] \<rparr>]))
   \<and> stream_log (store empty_redis ''t''
                  (RStream [\<lparr> entry_id = (0, 1), entry_fields = [(''payload'', ''1ping'')] \<rparr>])) ''t''
     = [\<lparr> entry_id = (0, 1), entry_fields = [(''payload'', ''1ping'')] \<rparr>]
   \<and> flag_decode (Some ''1ping'') = Some (''ping'', \<lparr> prompt = True \<rparr>)"
proof -
  let ?db' = "store empty_redis ''t''
                (RStream [\<lparr> entry_id = (0, 1), entry_fields = [(''payload'', ''1ping'')] \<rparr>])"
  have e: "lookup empty_redis k = None" for k
    by (simp add: lookup_def empty_redis_def)
  have c: "clock empty_redis = 0"
    by (simp add: empty_redis_def)
  have h: "publish flag_encode empty_redis ''t'' ''ping'' (Some \<lparr> prompt = False \<rparr>) = Inr ((), ?db')"
    by (simp add: publish_def xAdd_def e c flag_encode_def next_id_def last_id_def Let_def)
  from publish_appends_with_prompt_true [OF h] show ?thesis
    using h by (simp add: stream_log_def e c flag_encode_def flag_decode_def next_id_def last_id_def)
qed

section \<open>The stream listener\<close>

text \<open>
  Claim C9, as amended. \<^verbatim>\<open>streamListener\<close> does not loop. One call, and a subscribe event makes
  one call, issues exactly one blocking read on the topic's log from \<^verbatim>\<open>$\<close>, emits at
  most one message (none when the reply has no stream or the payload is the empty
  string, else what the decoder returns), and is over: no second read follows.
\<close>

theorem streamListener_reads_once:
  "length (filter is_XRead (fst (streamListener decode t response))) = 1
   \<and> length (filter is_Emit (fst (streamListener decode t response))) \<le> 1
   \<and> fst (streamListener decode t response)
       = XRead t ''$''
         # (case reply_payload response of
              Inl e \<Rightarrow> []
            | Inr p \<Rightarrow> if p = Some [] then [] else emitWakuMessage decode t p)
   \<and> on_subscribe decode subscription response
       = streamListener decode (topic subscription) response"
  by (auto simp: streamListener_def emitWakuMessage_def on_subscribe_def
      split: sum.splits option.splits)

text \<open>
  The claim as stated, that the listener issues another blocking read after each
  read, fails: on a reply that carries a message the call emits it and ends, with one
  read in all.
\<close>

theorem streamListener_loops_counterexample:
  "streamListener flag_decode ''t''
     (Some [\<lparr> stream_name = ''t'',
              stream_messages = [\<lparr> message_id = ''5-0'',
                                   message_fields = [(''payload'', ''1ping'')] \<rparr>] \<rparr>])
     = ([XRead ''t'' ''$'', Emit ''t'' ''ping'' True], None)
   \<and> \<not> 2 \<le> length (filter is_XRead (fst (streamListener flag_decode ''t''
     (Some [\<lparr> stream_name = ''t'',
              stream_messages = [\<lparr> message_id = ''5-0'',
                                   message_fields = [(''payload'', ''1ping'')] \<rparr>] \<rparr>]))))"
  by (simp add: streamListener_def reply_payload_def emitWakuMessage_def flag_decode_def)

section \<open>The legacy queue\<close>

lemma lookup_empty_redis: "lookup empty_redis k = None"
  by (simp add: lookup_def empty_redis_def)

lemma list_key_lookup:
  "list_key db k \<Longrightarrow> lookup db k = None \<or> lookup db k = Some (RList (list_at db k))"
  by (auto simp: list_key_def list_at_def split: option.splits redis_value.splits)

lemma list_at_missing: "lookup db k = None \<Longrightarrow> list_at db k = []"
  by (simp add: list_at_def)

lemma lPush_list_key:
  assumes "list_key db k"
  shows "lPush db k v = Inr (Suc (length (list_at db k)), store db k (RList (v # list_at db k)))"
  using list_key_lookup [OF assms] by (auto simp: lPush_def list_at_missing)

lemma setLegacyCached_pushes:
  assumes "list_key db (''legacy:'' @ topic m)"
  shows "\<exists>db1. setLegacyCached f db m = Inr ((), db1)
           \<and> lookup db1 (''legacy:'' @ topic m)
               = Some (RList (f m # list_at db (''legacy:'' @ topic m)))"
proof -
  let ?k = "''legacy:'' @ topic m"
  let ?db0 = "store db ?k (RList (f m # list_at db ?k))"
  have l0: "lookup ?db0 ?k = Some (RList (f m # list_at db ?k))"
    by (simp add: lookup_store)
  have "0 < SIX_HOURS" by (simp add: SIX_HOURS_def)
  from expire_positive [OF this l0] obtain db1
    where e: "expire ?db0 ?k SIX_HOURS = Inr (True, db1)"
      and l1: "\<forall>k'. lookup db1 k' = lookup ?db0 k'"
    by blast
  have "setLegacyCached f db m = Inr ((), db1)"
    unfolding setLegacyCached_def lPush_list_key [OF assms] using e by simp
  then show ?thesis using l1 l0 by simp
qed

lemma setLegacyCachedAll_pushes:
  assumes "list_key db (''legacy:'' @ t)" and "\<forall>m \<in> set msgs. topic m = t"
  shows "\<exists>db1. setLegacyCachedAll f db msgs = Inr ((), db1)
           \<and> list_key db1 (''legacy:'' @ t)
           \<and> list_at db1 (''legacy:'' @ t) = rev (map f msgs) @ list_at db (''legacy:'' @ t)"
  using assms
proof (induction msgs arbitrary: db)
  case Nil
  then show ?case by simp
next
  case (Cons m msgs)
  then have tm: "topic m = t" by simp
  with Cons.prems(1) have "list_key db (''legacy:'' @ topic m)" by simp
  from setLegacyCached_pushes [OF this, of f] tm obtain db1
    where s: "setLegacyCached f db m = Inr ((), db1)"
      and l: "lookup db1 (''legacy:'' @ t) = Some (RList (f m # list_at db (''legacy:'' @ t)))"
    by auto
  from l have k1: "list_key db1 (''legacy:'' @ t)"
    and a1: "list_at db1 (''legacy:'' @ t) = f m # list_at db (''legacy:'' @ t)"
    by (simp_all add: list_key_def list_at_def)
  from Cons.IH [OF k1] Cons.prems(2) obtain db2
    where "setLegacyCachedAll f db1 msgs = Inr ((), db2)"
      and "list_key db2 (''legacy:'' @ t)"
      and "list_at db2 (''legacy:'' @ t) = rev (map f msgs) @ list_at db1 (''legacy:'' @ t)"
    by auto
  then show ?case using s a1 by simp
qed

lemma getLegacyCached_drains:
  assumes "list_key db (''legacy:'' @ t)"
  shows "getLegacyCached jp db t
         = Inr (map (safeJsonParse jp) (list_at db (''legacy:'' @ t)), remove db (''legacy:'' @ t))"
  using list_key_lookup [OF assms]
  by (auto simp: getLegacyCached_def lRange_def del_def list_range_all list_at_missing)

text \<open>
  Claim C5. Let the key \<^verbatim>\<open>legacy:t\<close> be missing or hold a list, and let \<open>msgs\<close> be
  any finite sequence of messages for topic \<open>t\<close> that JSON round-trips. Pushing them in
  order succeeds; one \<^verbatim>\<open>getLegacyCached(t)\<close> then returns each pushed message exactly
  once, the latest first, followed by whatever the list held before, and deletes the
  list; a second call right after it returns the empty list.
\<close>

theorem legacy_drain:
  assumes "list_key db (''legacy:'' @ t)"
      and "\<forall>m \<in> set msgs. topic m = t"
      and "\<forall>m \<in> set msgs. json_parse (stringify m) = Some m"
  shows "\<exists>db1 db2 db3.
           setLegacyCachedAll stringify db msgs = Inr ((), db1)
           \<and> getLegacyCached json_parse db1 t
               = Inr (map Parsed (rev msgs)
                        @ map (safeJsonParse json_parse) (list_at db (''legacy:'' @ t)), db2)
           \<and> lookup db2 (''legacy:'' @ t) = None
           \<and> getLegacyCached json_parse db2 t = Inr ([], db3)"
proof -
  let ?k = "''legacy:'' @ t"
  from setLegacyCachedAll_pushes [OF assms(1,2), of stringify] obtain db1
    where p: "setLegacyCachedAll stringify db msgs = Inr ((), db1)"
      and k1: "list_key db1 ?k"
      and a1: "list_at db1 ?k = rev (map stringify msgs) @ list_at db ?k"
    by blast
  have "map (safeJsonParse json_parse) (rev (map stringify msgs)) = map Parsed (rev msgs)"
    using assms(3) by (simp add: safeJsonParse_def rev_map)
  with getLegacyCached_drains [OF k1, of json_parse] a1
  have g1: "getLegacyCached json_parse db1 t
            = Inr (map Parsed (rev msgs) @ map (safeJsonParse json_parse) (list_at db ?k),
                   remove db1 ?k)"
    by simp
  have l2: "lookup (remove db1 ?k) ?k = None" by (simp add: lookup_remove)
  then have "list_key (remove db1 ?k) ?k" by (simp add: list_key_def)
  from getLegacyCached_drains [OF this, of json_parse] l2
  have "getLegacyCached json_parse (remove db1 ?k) t = Inr ([], remove (remove db1 ?k) ?k)"
    by (simp add: list_at_missing)
  with p g1 l2 show ?thesis by blast
qed

theorem legacy_drain_witness:
  "\<exists>db1 db2 db3.
      setLegacyCachedAll topic_json_stringify empty_redis
        [\<lparr> topic = ''t'' \<rparr>, \<lparr> topic = ''t'' \<rparr>] = Inr ((), db1)
      \<and> getLegacyCached topic_json_parse db1 ''t''
          = Inr ([Parsed \<lparr> topic = ''t'' \<rparr>, Parsed \<lparr> topic = ''t'' \<rparr>], db2)
      \<and> lookup db2 ''legacy:t'' = None
      \<and> getLegacyCached topic_json_parse db2 ''t'' = Inr ([], db3)"
proof -
  have 1: "list_key empty_redis (''legacy:'' @ ''t'')"
    by (simp add: list_key_def lookup_empty_redis)
  have 2: "\<forall>m \<in> set [\<lparr> topic = ''t'' \<rparr>, \<lparr> topic = ''t'' \<rparr>]. topic m = ''t''"
    by simp
  have 3: "\<forall>m \<in> set [\<lparr> topic = ''t'' \<rparr>, \<lparr> topic = ''t'' \<rparr>].
             topic_json_parse (topic_json_stringify m) = Some m"
    by (simp add: topic_json_round_trip plain_text_def)
  from legacy_drain [OF 1 2 3] show ?thesis
    by (simp add: list_at_missing lookup_empty_redis)
qed

section \<open>Batch reads and malformed records\<close>

lemma getNotification_lists:
  assumes "list_key db (''notification:'' @ t)"
  shows "getNotification jp db t
         = Inr (map (safeJsonParse jp) (list_at db (''notification:'' @ t)), db)"
  using list_key_lookup [OF assms]
  by (auto simp: getNotification_def lRange_def list_range_all list_at_missing)

lemma getMessages_lists:
  assumes "set_key db (''message:'' @ t)"
  shows "getMessages db t
         = Inr (map (\<lambda>m. nth_opt (split_on CHR '':'' m) 1) (message_members db t), db)"
  using assms
  by (auto simp: getMessages_def sMembers_def set_key_def message_members_def
      split: option.splits redis_value.splits)

lemma split_hash_body:
  assumes "sep \<notin> set h" and "sep \<notin> set b"
  shows "nth_opt (split_on sep (h @ sep # b)) 1 = Some b"
  using assms by (simp add: split_on_first split_on_no_sep)

text \<open>
  Claim C6, as amended. A stored record that does not parse raises no error and does
  not keep the other records of the batch from being returned, but it is not left
  out. For a key that is missing or holds a list, \<^verbatim>\<open>getLegacyCached\<close> and
  \<^verbatim>\<open>getNotification\<close> return one element per stored record, in the stored order:
  what \<^verbatim>\<open>JSON.parse\<close> returns, or the stored string itself where \<^verbatim>\<open>JSON.parse\<close>
  throws. For a key that is missing or holds a set, \<^verbatim>\<open>getMessages\<close> returns the body
  of every member \<^verbatim>\<open>hash:body\<close> whose two parts hold no colon, whatever else the set
  holds.
\<close>

theorem batch_reads_keep_every_record:
  "(list_key db (''legacy:'' @ t) \<longrightarrow>
      (\<exists>db'. getLegacyCached json_parse db t
               = Inr (map (safeJsonParse json_parse) (list_at db (''legacy:'' @ t)), db')))
   \<and> (list_key db (''notification:'' @ t) \<longrightarrow>
        getNotification json_parse db t
          = Inr (map (safeJsonParse json_parse) (list_at db (''notification:'' @ t)), db))
   \<and> (set_key db (''message:'' @ t) \<longrightarrow>
        (\<exists>bodies. getMessages db t = Inr (bodies, db)
           \<and> (\<forall>h b. h @ '':'' @ b \<in> set (message_members db t)
                      \<and> CHR '':'' \<notin> set h \<and> CHR '':'' \<notin> set b
                    \<longrightarrow> Some b \<in> set bodies)))
   \<and> (json_parse x = None \<longrightarrow> safeJsonParse json_parse x = Unparsed x)
   \<and> (json_parse x = Some v \<longrightarrow> safeJsonParse json_parse x = Parsed v)"
proof -
  have "\<exists>bodies. getMessages db t = Inr (bodies, db)
           \<and> (\<forall>h b. h @ '':'' @ b \<in> set (message_members db t)
                      \<and> CHR '':'' \<notin> set h \<and> CHR '':'' \<notin> set b
                    \<longrightarrow> Some b \<in> set bodies)"
    if k: "set_key db (''message:'' @ t)"
  proof -
    have "Some b \<in> set (map (\<lambda>m. nth_opt (split_on CHR '':'' m) 1) (message_members db t))"
      if "h @ '':'' @ b \<in> set (message_members db t)"
        and "CHR '':'' \<notin> set h" and "CHR '':'' \<notin> set b" for h b
    proof -
      have "nth_opt (split_on CHR '':'' (h @ '':'' @ b)) 1 = Some b"
        using split_hash_body [OF that(2,3)] by simp
      with that(1) show ?thesis by force
    qed
    with getMessages_lists [OF k] show ?thesis by blast
  qed
  then show ?thesis
    using getLegacyCached_drains [of db t json_parse] getNotification_lists [of db t json_parse]
    by (simp add: safeJsonParse_def)
qed

theorem batch_reads_keep_every_record_witness:
  "(\<exists>db'. getLegacyCached topic_json_parse example_store ''t''
            = Inr ([Parsed \<lparr> topic = ''t'' \<rparr>, Unparsed ''{bad''], db'))
   \<and> getNotification topic_json_parse example_store ''t''
       = Inr ([Unparsed ''{bad'', Parsed \<lparr> topic = ''t'' \<rparr>], example_store)
   \<and> (\<exists>bodies. getMessages example_store ''t'' = Inr (bodies, example_store)
         \<and> Some ''hi'' \<in> set bodies)
   \<and> safeJsonParse topic_json_parse ''{bad'' = Unparsed ''{bad''
   \<and> safeJsonParse topic_json_parse (topic_json_stringify \<lparr> topic = ''t'' \<rparr>)
       = Parsed \<lparr> topic = ''t'' \<rparr>"
proof -
  have 1: "topic_json_parse (topic_json_stringify \<lparr> topic = ''t'' \<rparr>) = Some \<lparr> topic = ''t'' \<rparr>"
    by (rule topic_json_round_trip) (simp add: plain_text_def)
  have 2: "topic_json_parse ''{bad'' = None"
    by (simp add: topic_json_parse_def)
  have l: "list_at example_store (''legacy:'' @ ''t'')
             = [topic_json_stringify \<lparr> topic = ''t'' \<rparr>, ''{bad'']"
    and n: "list_at example_store (''notification:'' @ ''t'')
             = [''{bad'', topic_json_stringify \<lparr> topic = ''t'' \<rparr>]"
    and s: "message_members example_store ''t'' = [''6869:hi'', ''nocolon'', []]"
    by (simp_all add: example_store_def list_at_def message_members_def lookup_store)
  have k: "list_key example_store (''legacy:'' @ ''t'')"
    "list_key example_store (''notification:'' @ ''t'')"
    "set_key example_store (''message:'' @ ''t'')"
    by (simp_all add: example_store_def list_key_def set_key_def lookup_store)
  have m: "''6869'' @ '':'' @ ''hi'' \<in> set (message_members example_store ''t'')
           \<and> CHR '':'' \<notin> set ''6869'' \<and> CHR '':'' \<notin> set ''hi''"
    by (simp add: s)
  note bad = batch_reads_keep_every_record
    [of example_store "''t''" topic_json_parse "''{bad''" "\<lparr> topic = ''t'' \<rparr>"]
  note good = batch_reads_keep_every_record
    [of example_store "''t''" topic_json_parse "topic_json_stringify \<lparr> topic = ''t'' \<rparr>"
      "\<lparr> topic = ''t'' \<rparr>"]
  from bad k(3) obtain bodies
    where g: "getMessages example_store ''t'' = Inr (bodies, example_store)"
      and a: "\<forall>h b. h @ '':'' @ b \<in> set (message_members example_store ''t'')
                      \<and> CHR '':'' \<notin> set h \<and> CHR '':'' \<notin> set b
                    \<longrightarrow> Some b \<in> set bodies"
    by blast
  from a m have "Some ''hi'' \<in> set bodies" by blast
  with g have 3: "\<exists>bodies. getMessages example_store ''t'' = Inr (bodies, example_store)
         \<and> Some ''hi'' \<in> set bodies"
    by blast
  have p: "safeJsonParse topic_json_parse ''{bad'' = Unparsed ''{bad''"
    "safeJsonParse topic_json_parse (topic_json_stringify \<lparr> topic = ''t'' \<rparr>)
       = Parsed \<lparr> topic = ''t'' \<rparr>"
    by (simp_all add: safeJsonParse_def 1 2)
  from bad good k(1,2) 3 show ?thesis
    unfolding l n by (simp add: p)
qed

text \<open>
  The claim as stated fails: the legacy list of the example store holds a JSON record
  and the string \<^verbatim>\<open>{bad\<close>; the read returns both, the second one unparsed.
\<close>

theorem malformed_records_counterexample:
  "topic_json_parse ''{bad'' = None
   \<and> map_sum id fst (getLegacyCached topic_json_parse example_store ''t'')
      = Inr [Parsed \<lparr> topic = ''t'' \<rparr>, Unparsed ''{bad'']
   \<and> map_sum id fst (getLegacyCached topic_json_parse example_store ''t'')
      \<noteq> Inr [Parsed \<lparr> topic = ''t'' \<rparr>]"
proof -
  have 1: "topic_json_parse (topic_json_stringify \<lparr> topic = ''t'' \<rparr>) = Some \<lparr> topic = ''t'' \<rparr>"
    by (rule topic_json_round_trip) (simp add: plain_text_def)
  have 2: "topic_json_parse ''{bad'' = None"
    by (simp add: topic_json_parse_def)
  show ?thesis
    by (simp add: 1 2 example_store_def getLegacyCached_def lRange_def del_def
        lookup_store list_range_all safeJsonParse_def)
qed

section \<open>The message cache\<close>

lemma glob_rest_literal_star:
  assumes "\<forall>c \<in> set h. \<not> glob_special c"
  shows "glob_rest (h @ ''*'') m = prefix h m"
  using assms
proof (induction h arbitrary: m)
  case Nil
  then show ?case by (cases m) simp_all
next
  case (Cons a h)
  then have a: "a \<noteq> CHR ''*''" "a \<noteq> CHR ''?''" "a \<noteq> CHR ''[''" "a \<noteq> CHR 0x5C"
    by (simp_all add: glob_special_def)
  from Cons have ih: "glob_rest (h @ ''*'') m' = prefix h m'" for m' by simp
  show ?case
  proof (cases m)
    case Nil
    then show ?thesis using a by simp
  next
    case (Cons c t)
    then show ?thesis using a ih [of t] by auto
  qed
qed

lemma glob_match_hash_pattern:
  assumes "\<forall>c \<in> set h. \<not> glob_special c"
  shows "glob_match (h @ '':*'') m = prefix (h @ '':'') m"
proof -
  have "\<forall>c \<in> set (h @ '':''). \<not> glob_special c"
    using assms by (simp add: glob_special_def)
  from glob_rest_literal_star [OF this, of m]
  show ?thesis by (cases m) (simp_all add: glob_match_def)
qed

lemma nth_opt_split_first: "nth_opt (split_on sep s) 0 = Some (takeWhile (\<lambda>c. c \<noteq> sep) s)"
  by (induction s) (auto split: list.splits)

lemma split_member:
  assumes "CHR '':'' \<notin> set h"
  shows "nth_opt (split_on CHR '':'' (h @ '':'' @ b)) 1 = Some (takeWhile (\<lambda>c. c \<noteq> CHR '':'') b)"
  using assms by (simp add: split_on_first nth_opt_split_first)

lemma set_key_lookup:
  "set_key db k \<Longrightarrow> lookup db k = None \<or> (\<exists>ms. lookup db k = Some (RSet ms))"
  by (auto simp: set_key_def split: option.splits redis_value.splits)

text \<open>What one \<^verbatim>\<open>setMessage\<close> leaves in the store.\<close>

lemma sAdd_set_key:
  assumes "set_key db (''message:'' @ t)"
  shows "\<exists>db0. sAdd db (''message:'' @ t) v = Inr (if v \<in> set (message_members db t) then 0 else 1, db0)
           \<and> lookup db0 (''message:'' @ t)
               = Some (RSet (if v \<in> set (message_members db t) then message_members db t
                             else message_members db t @ [v]))
           \<and> (\<forall>k'. k' \<noteq> ''message:'' @ t \<longrightarrow> lookup db0 k' = lookup db k')"
  using set_key_lookup [OF assms]
  by (auto simp: sAdd_def message_members_def lookup_store)

lemma sAdd_fails: "\<not> set_key db k \<Longrightarrow> sAdd db k v = Inl WRONGTYPE"
  by (auto simp: sAdd_def set_key_def split: option.splits redis_value.splits)

lemma setMessage_fails:
  "\<not> set_key db (''message:'' @ topic p) \<Longrightarrow> setMessage sha256 db p = Inl WRONGTYPE"
  unfolding setMessage_def Let_def by (simp add: sAdd_fails)

lemma setMessage_effect:
  assumes "set_key db (''message:'' @ topic p)"
  shows "\<exists>db1. setMessage sha256 db p = Inr ((), db1)
           \<and> lookup db1 (''message:'' @ topic p)
               = (if ttl p \<le> 0 then None
                  else Some (RSet (if sha256 (message p) @ '':'' @ message p
                                        \<in> set (message_members db (topic p))
                                   then message_members db (topic p)
                                   else message_members db (topic p)
                                        @ [sha256 (message p) @ '':'' @ message p])))
           \<and> (\<forall>k'. k' \<noteq> ''message:'' @ topic p \<longrightarrow> lookup db1 k' = lookup db k')"
proof -
  let ?k = "''message:'' @ topic p"
  let ?v = "sha256 (message p) @ '':'' @ message p"
  let ?ms = "if ?v \<in> set (message_members db (topic p)) then message_members db (topic p)
             else message_members db (topic p) @ [?v]"
  from sAdd_set_key [OF assms, of ?v] obtain db0 n
    where a: "sAdd db ?k ?v = Inr (n, db0)"
      and l0: "lookup db0 ?k = Some (RSet ?ms)"
      and o0: "\<forall>k'. k' \<noteq> ?k \<longrightarrow> lookup db0 k' = lookup db k'"
    by blast
  show ?thesis
  proof (cases "ttl p \<le> 0")
    case True
    from expire_not_positive [OF True l0]
    have "setMessage sha256 db p = Inr ((), remove db0 ?k)"
      unfolding setMessage_def Let_def a by simp
    then show ?thesis using True o0 by (simp add: lookup_remove)
  next
    case False
    then have "0 < ttl p" by simp
    from expire_positive [OF this l0] obtain db1
      where e: "expire db0 ?k (ttl p) = Inr (True, db1)"
        and l1: "\<forall>k'. lookup db1 k' = lookup db0 k'"
      by blast
    have "setMessage sha256 db p = Inr ((), db1)"
      unfolding setMessage_def Let_def a using e by simp
    then show ?thesis using False l0 l1 o0 by simp
  qed
qed

lemma getMessage_not_found:
  assumes "set_key db (''message:'' @ t)"
    and "\<forall>m \<in> set (message_members db t). \<not> glob_match (h @ '':*'') m"
  shows "getMessage db t h = Inr (None, db)"
proof -
  from assms(2) have "filter (glob_match (h @ '':*'')) (message_members db t) = []"
    by (simp add: filter_empty_conv)
  with set_key_lookup [OF assms(1)] show ?thesis
    unfolding getMessage_def sScanIterator_def message_members_def by auto
qed


text \<open>
  Claim C3. Let the digest of the body hold no colon and no glob character (a
  hexadecimal digest holds none), the time to live be positive and the topic's set be
  missing. After \<^verbatim>\<open>setMessage(t, body, ttl)\<close>, \<^verbatim>\<open>getMessage(t, digest(body))\<close> returns
  the body up to its first colon: the whole body only when it holds no colon. For a
  hash that no member of a set matches, \<^verbatim>\<open>getMessage\<close> returns \<^verbatim>\<open>undefined\<close>.
\<close>

theorem getMessage_returns_body_up_to_colon:
  assumes "\<forall>c \<in> set (sha256 body). \<not> glob_special c \<and> c \<noteq> CHR '':''"
      and "0 < ttl'"
      and "lookup db (''message:'' @ t) = None"
      and "set_key db' (''message:'' @ t')"
      and "\<forall>m \<in> set (message_members db' t'). \<not> glob_match (h @ '':*'') m"
  shows "(\<exists>db1. setMessage sha256 db \<lparr> topic = t, message = body, ttl = ttl' \<rparr> = Inr ((), db1)
            \<and> getMessage db1 t (sha256 body)
                = Inr (Some (takeWhile (\<lambda>c. c \<noteq> CHR '':'') body), db1))
         \<and> getMessage db' t' h = Inr (None, db')"
proof
  let ?p = "\<lparr> topic = t, message = body, ttl = ttl' \<rparr>"
  let ?v = "sha256 body @ '':'' @ body"
  have k: "set_key db (''message:'' @ topic ?p)"
    using assms(3) by (simp add: set_key_def)
  have m: "message_members db t = []"
    using assms(3) by (simp add: message_members_def)
  from setMessage_effect [OF k, of sha256] assms(2) m obtain db1
    where s: "setMessage sha256 db ?p = Inr ((), db1)"
      and l: "lookup db1 (''message:'' @ t) = Some (RSet [?v])"
    by auto
  have "glob_match (sha256 body @ '':*'') ?v"
    using assms(1) by (simp add: glob_match_hash_pattern)
  moreover have "nth_opt (split_on CHR '':'' ?v) 1 = Some (takeWhile (\<lambda>c. c \<noteq> CHR '':'') body)"
    using assms(1) by (intro split_member) auto
  ultimately have "getMessage db1 t (sha256 body)
                   = Inr (Some (takeWhile (\<lambda>c. c \<noteq> CHR '':'') body), db1)"
    unfolding getMessage_def sScanIterator_def l by simp
  with s show "\<exists>db1. setMessage sha256 db ?p = Inr ((), db1)
            \<and> getMessage db1 t (sha256 body)
                = Inr (Some (takeWhile (\<lambda>c. c \<noteq> CHR '':'') body), db1)"
    by blast
  show "getMessage db' t' h = Inr (None, db')"
    by (rule getMessage_not_found [OF assms(4,5)])
qed

lemma hex_digest_a_b: "hex_digest ''a:b'' = ''613a62''"
  by (simp add: hex_digest_def hex_char_def)

theorem getMessage_returns_body_up_to_colon_witness:
  "(\<exists>db1. setMessage hex_digest empty_redis \<lparr> topic = ''t'', message = ''a:b'', ttl = 60 \<rparr>
            = Inr ((), db1)
         \<and> getMessage db1 ''t'' (hex_digest ''a:b'') = Inr (Some ''a'', db1))
   \<and> Some ''a'' \<noteq> Some ''a:b''
   \<and> getMessage example_store ''t'' ''00'' = Inr (None, example_store)"
proof -
  have 1: "\<forall>c \<in> set (hex_digest ''a:b''). \<not> glob_special c \<and> c \<noteq> CHR '':''"
    by (simp add: hex_digest_a_b glob_special_def)
  have 2: "(0::int) < 60" by simp
  have 3: "lookup empty_redis (''message:'' @ ''t'') = None"
    by (rule lookup_empty_redis)
  have 4: "set_key example_store (''message:'' @ ''t'')"
    by (simp add: example_store_def set_key_def lookup_store)
  have s: "message_members example_store ''t'' = [''6869:hi'', ''nocolon'', []]"
    by (simp add: example_store_def message_members_def lookup_store)
  have g: "glob_match (''00'' @ '':*'') m = prefix (''00'' @ '':'') m" for m
    by (rule glob_match_hash_pattern) (simp add: glob_special_def)
  have 5: "\<forall>m \<in> set (message_members example_store ''t''). \<not> glob_match (''00'' @ '':*'') m"
    unfolding s g by simp
  from getMessage_returns_body_up_to_colon
    [of hex_digest "''a:b''" 60 empty_redis "''t''" example_store "''t''" "''00''", OF 1 2 3 4 5]
  show ?thesis by simp
qed

section \<open>Deduplication in the message cache\<close>

lemma message_members_cong:
  "lookup db1 (''message:'' @ T) = lookup db (''message:'' @ T)
   \<Longrightarrow> message_members db1 T = message_members db T"
  by (simp add: message_members_def)

lemma set_key_cong: "lookup db1 k = lookup db k \<Longrightarrow> set_key db1 k = set_key db k"
  by (simp add: set_key_def)

lemma cache_invariant_cong:
  assumes "lookup db1 (''message:'' @ T) = lookup db (''message:'' @ T)"
  shows "cache_invariant sha256 B db1 T = cache_invariant sha256 B db T"
  unfolding cache_invariant_def message_members_cong [OF assms] set_key_cong [OF assms] ..

lemma cache_invariant_setMessage:
  assumes inv: "cache_invariant sha256 B db T" and b: "message p \<in> B"
    and s: "setMessage sha256 db p = Inr (u, db1)"
  shows "cache_invariant sha256 B db1 T"
proof -
  have k: "set_key db (''message:'' @ topic p)"
    using s setMessage_fails [of db p sha256] by auto
  let ?v = "sha256 (message p) @ '':'' @ message p"
  from setMessage_effect [OF k, of sha256] s
  have l: "lookup db1 (''message:'' @ topic p)
             = (if ttl p \<le> 0 then None
                else Some (RSet (if ?v \<in> set (message_members db (topic p))
                                 then message_members db (topic p)
                                 else message_members db (topic p) @ [?v])))"
    and o: "\<forall>k'. k' \<noteq> ''message:'' @ topic p \<longrightarrow> lookup db1 k' = lookup db k'"
    by auto
  show ?thesis
  proof (cases "topic p = T")
    case False
    then have "lookup db1 (''message:'' @ T) = lookup db (''message:'' @ T)"
      using o by simp
    from cache_invariant_cong [OF this, of sha256 B] inv show ?thesis by simp
  next
    case True
    have v: "?v \<in> (\<lambda>b. sha256 b @ '':'' @ b) ` B" using b by blast
    show ?thesis
    proof (cases "ttl p \<le> 0")
      case True
      with l \<open>topic p = T\<close> have "lookup db1 (''message:'' @ T) = None" by simp
      then show ?thesis by (simp add: cache_invariant_def set_key_def message_members_def)
    next
      case False
      with l \<open>topic p = T\<close>
      have "lookup db1 (''message:'' @ T)
              = Some (RSet (if ?v \<in> set (message_members db T) then message_members db T
                            else message_members db T @ [?v]))"
        by simp
      then have "set_key db1 (''message:'' @ T)"
        and "message_members db1 T
               = (if ?v \<in> set (message_members db T) then message_members db T
                  else message_members db T @ [?v])"
        by (simp_all add: set_key_def message_members_def)
      then show ?thesis using inv v by (auto simp: cache_invariant_def)
    qed
  qed
qed

lemma setMessages_append:
  "setMessages sha256 db (ps @ qs) = setMessages sha256 (setMessages sha256 db ps) qs"
  by (induction ps arbitrary: db) (auto split: sum.splits)

lemma cache_invariant_setMessages:
  assumes "cache_invariant sha256 B db T" and "message ` set calls \<subseteq> B"
  shows "cache_invariant sha256 B (setMessages sha256 db calls) T"
  using assms
proof (induction calls arbitrary: db)
  case Nil
  then show ?case by simp
next
  case (Cons p ps)
  show ?case
  proof (cases "setMessage sha256 db p")
    case (Inl e)
    with Cons show ?thesis by simp
  next
    case (Inr r)
    then obtain u db1 where r: "setMessage sha256 db p = Inr (u, db1)" by (cases r) auto
    from Cons.prems have "message p \<in> B" by simp
    from cache_invariant_setMessage [OF Cons.prems(1) this r]
    have "cache_invariant sha256 B db1 T" .
    with Cons r show ?thesis by simp
  qed
qed

lemma member_hash_member: "CHR '':'' \<notin> set h \<Longrightarrow> member_hash (h @ CHR '':'' # b) = h"
  by (induction h) (auto simp: member_hash_def)

lemma filter_at_most_one:
  assumes "distinct xs" and "\<And>x y. x \<in> set xs \<Longrightarrow> y \<in> set xs \<Longrightarrow> P x \<Longrightarrow> P y \<Longrightarrow> x = y"
  shows "length (filter P xs) \<le> 1"
  using assms
proof (induction xs)
  case Nil
  then show ?case by simp
next
  case (Cons a xs)
  show ?case
  proof (cases "P a")
    case False
    with Cons show ?thesis by simp
  next
    case True
    have "filter P xs = []"
    proof (rule ccontr)
      assume "filter P xs \<noteq> []"
      then obtain y where y: "y \<in> set xs" "P y"
        by (metis filter_False)
      with Cons.prems(2) [of a y] True have "a = y" by simp
      with y Cons.prems(1) show False by simp
    qed
    with True show ?thesis by simp
  qed
qed

lemma filter_eq_single:
  "distinct xs \<Longrightarrow> x \<in> set xs \<Longrightarrow> filter (\<lambda>y. y = x) xs = [x]"
proof (induction xs)
  case Nil
  then show ?case by simp
next
  case (Cons a xs)
  show ?case
  proof (cases "a = x")
    case True
    with Cons.prems(1) have "x \<notin> set xs" by simp
    then have "filter (\<lambda>y. y = x) xs = []" by (auto simp: filter_empty_conv)
    with True show ?thesis by simp
  next
    case False
    with Cons.prems have "distinct xs" and "x \<in> set xs" by simp_all
    with Cons.IH have "filter (\<lambda>y. y = x) xs = [x]" by simp
    with False show ?thesis by simp
  qed
qed

lemma filter_single:
  assumes "distinct xs" and "x \<in> set xs" and "P x"
    and "\<And>y. y \<in> set xs \<Longrightarrow> P y \<Longrightarrow> y = x"
  shows "filter P xs = [x]"
proof -
  have "filter P xs = filter (\<lambda>y. y = x) xs"
    by (rule filter_cong [OF refl]) (use assms(3,4) in blast)
  with filter_eq_single [OF assms(1,2)] show ?thesis by simp
qed

lemma same_hash_same_member:
  assumes inv: "cache_invariant sha256 B db T"
    and inj: "inj_on sha256 B"
    and nocolon: "\<forall>b \<in> B. CHR '':'' \<notin> set (sha256 b)"
    and x: "x \<in> set (message_members db T)" and y: "y \<in> set (message_members db T)"
    and h: "member_hash x = member_hash y"
  shows "x = y"
proof -
  from inv x obtain bx where bx: "bx \<in> B" "x = sha256 bx @ '':'' @ bx"
    by (auto simp: cache_invariant_def)
  from inv y obtain by' where by': "by' \<in> B" "y = sha256 by' @ '':'' @ by'"
    by (auto simp: cache_invariant_def)
  from h bx by' nocolon have "sha256 bx = sha256 by'"
    by (simp add: member_hash_member)
  with inj bx(1) by'(1) have "bx = by'" by (simp add: inj_on_def)
  with bx by' show ?thesis by simp
qed

text \<open>
  Claim C4, as amended. Start from a store without the topic's message set, and let
  the digest have no collision among the bodies at hand and write no colon. After any
  sequence of \<^verbatim>\<open>setMessage\<close> calls, with any topics and times to live, the set of
  topic \<open>T\<close> has at most one member for each hash. After two more calls
  \<^verbatim>\<open>setMessage(T, body, ttl)\<close> with positive times to live, it has exactly one member
  whose hash is the digest of \<open>body\<close>, the member \<^verbatim>\<open>hash:body\<close>.
\<close>

theorem setMessage_dedup:
  assumes fresh: "lookup db (''message:'' @ T) = None"
      and inj: "inj_on sha256 (insert body (message ` set calls))"
      and nocolon: "\<forall>b \<in> insert body (message ` set calls). CHR '':'' \<notin> set (sha256 b)"
      and ttls: "0 < ttl1" "0 < ttl2"
  shows "(\<forall>h. length (filter (\<lambda>m. member_hash m = h)
                        (message_members (setMessages sha256 db calls) T)) \<le> 1)
         \<and> filter (\<lambda>m. member_hash m = sha256 body)
             (message_members
                (setMessages sha256 db
                   (calls @ [\<lparr> topic = T, message = body, ttl = ttl1 \<rparr>,
                             \<lparr> topic = T, message = body, ttl = ttl2 \<rparr>])) T)
           = [sha256 body @ '':'' @ body]"
proof
  let ?B = "insert body (message ` set calls)"
  let ?v = "sha256 body @ '':'' @ body"
  let ?p1 = "\<lparr> topic = T, message = body, ttl = ttl1 \<rparr>"
  let ?p2 = "\<lparr> topic = T, message = body, ttl = ttl2 \<rparr>"
  have inv0: "cache_invariant sha256 ?B db T"
    using fresh by (simp add: cache_invariant_def set_key_def message_members_def)
  have inv: "cache_invariant sha256 ?B (setMessages sha256 db calls) T"
    by (rule cache_invariant_setMessages [OF inv0]) auto
  show "\<forall>h. length (filter (\<lambda>m. member_hash m = h)
                    (message_members (setMessages sha256 db calls) T)) \<le> 1"
  proof
    fix h
    show "length (filter (\<lambda>m. member_hash m = h)
                    (message_members (setMessages sha256 db calls) T)) \<le> 1"
    proof (rule filter_at_most_one)
      show "distinct (message_members (setMessages sha256 db calls) T)"
        using inv by (simp add: cache_invariant_def)
    next
      fix x y
      assume "x \<in> set (message_members (setMessages sha256 db calls) T)"
        and "y \<in> set (message_members (setMessages sha256 db calls) T)"
        and "member_hash x = h" and "member_hash y = h"
      then show "x = y"
        using same_hash_same_member [OF inv inj nocolon, of x y] by simp
    qed
  qed
  let ?dbc = "setMessages sha256 db calls"
  have k: "set_key ?dbc (''message:'' @ topic ?p1)"
    using inv by (simp add: cache_invariant_def)
  from setMessage_effect [OF k, of sha256] ttls(1) obtain db1
    where s1: "setMessage sha256 ?dbc ?p1 = Inr ((), db1)"
      and l1: "lookup db1 (''message:'' @ T)
                 = Some (RSet (if ?v \<in> set (message_members ?dbc T) then message_members ?dbc T
                               else message_members ?dbc T @ [?v]))"
    by auto
  have inv1: "cache_invariant sha256 ?B db1 T"
    by (rule cache_invariant_setMessage [OF inv _ s1]) simp
  from l1 have m1: "?v \<in> set (message_members db1 T)"
    by (simp add: message_members_def)
  have k1: "set_key db1 (''message:'' @ topic ?p2)"
    using inv1 by (simp add: cache_invariant_def)
  from setMessage_effect [OF k1, of sha256] ttls(2) m1 obtain db2
    where s2: "setMessage sha256 db1 ?p2 = Inr ((), db2)"
      and l2: "lookup db2 (''message:'' @ T) = Some (RSet (message_members db1 T))"
    by auto
  have inv2: "cache_invariant sha256 ?B db2 T"
    by (rule cache_invariant_setMessage [OF inv1 _ s2]) simp
  from l2 have m2: "message_members db2 T = message_members db1 T"
    by (simp add: message_members_def)
  have run: "setMessages sha256 db (calls @ [?p1, ?p2]) = db2"
    by (simp add: setMessages_append s1 s2)
  have hv: "member_hash ?v = sha256 body"
    using nocolon by (simp add: member_hash_member)
  have "filter (\<lambda>m. member_hash m = sha256 body) (message_members db2 T) = [?v]"
  proof (rule filter_single)
    show "distinct (message_members db2 T)"
      using inv2 by (simp add: cache_invariant_def)
    show "?v \<in> set (message_members db2 T)" using m1 m2 by simp
    show "member_hash ?v = sha256 body" by (rule hv)
  next
    fix y
    assume "y \<in> set (message_members db2 T)" and "member_hash y = sha256 body"
    then show "y = ?v"
      using same_hash_same_member [OF inv2 inj nocolon, of y ?v] m1 m2 hv by simp
  qed
  with run show "filter (\<lambda>m. member_hash m = sha256 body)
             (message_members
                (setMessages sha256 db (calls @ [?p1, ?p2])) T)
           = [sha256 body @ '':'' @ body]"
    by simp
qed


theorem setMessage_dedup_witness:
  "(\<forall>h. length (filter (\<lambda>m. member_hash m = h)
                 (message_members
                    (setMessages hex_digest empty_redis
                       [\<lparr> topic = ''t'', message = ''x'', ttl = 60 \<rparr>,
                        \<lparr> topic = ''u'', message = ''y'', ttl = 0 \<rparr>]) ''t'')) \<le> 1)
   \<and> filter (\<lambda>m. member_hash m = hex_digest ''m'')
       (message_members
          (setMessages hex_digest empty_redis
             ([\<lparr> topic = ''t'', message = ''x'', ttl = 60 \<rparr>,
               \<lparr> topic = ''u'', message = ''y'', ttl = 0 \<rparr>]
              @ [\<lparr> topic = ''t'', message = ''m'', ttl = 60 \<rparr>,
                 \<lparr> topic = ''t'', message = ''m'', ttl = 5 \<rparr>])) ''t'')
     = [hex_digest ''m'' @ '':'' @ ''m'']"
proof -
  let ?calls = "[\<lparr> topic = ''t'', message = ''x'', ttl = 60 \<rparr>,
                 \<lparr> topic = ''u'', message = ''y'', ttl = 0 \<rparr>]"
  have d: "hex_digest ''m'' = ''6d''" "hex_digest ''x'' = ''78''" "hex_digest ''y'' = ''79''"
    by (simp_all add: hex_digest_def hex_char_def)
  have 1: "lookup empty_redis (''message:'' @ ''t'') = None"
    by (rule lookup_empty_redis)
  have 2: "inj_on hex_digest (insert ''m'' (message ` set ?calls))"
    by (simp add: d)
  have 3: "\<forall>b \<in> insert ''m'' (message ` set ?calls). CHR '':'' \<notin> set (hex_digest b)"
    by (simp add: d)
  have 4: "(0::int) < 60" and 5: "(0::int) < 5" by simp_all
  show ?thesis
    by (rule setMessage_dedup [OF 1 2 3 4 5])
qed

text \<open>
  The claim as stated, for any time to live, fails: a time to live of zero makes
  \<^verbatim>\<open>EXPIRE\<close> delete the set, so two calls leave no member at all.
\<close>

theorem setMessage_dedup_counterexample:
  "message_members
     (setMessages hex_digest empty_redis
        [\<lparr> topic = ''t'', message = ''m'', ttl = 0 \<rparr>,
         \<lparr> topic = ''t'', message = ''m'', ttl = 0 \<rparr>]) ''t'' = []
   \<and> length (filter (\<lambda>m. member_hash m = hex_digest ''m'')
               (message_members
                  (setMessages hex_digest empty_redis
                     [\<lparr> topic = ''t'', message = ''m'', ttl = 0 \<rparr>,
                      \<lparr> topic = ''t'', message = ''m'', ttl = 0 \<rparr>]) ''t'')) \<noteq> 1"
proof -
  let ?p = "\<lparr> topic = ''t'', message = ''m'', ttl = 0 \<rparr>"
  have k0: "set_key empty_redis (''message:'' @ topic ?p)"
    by (simp add: set_key_def lookup_empty_redis)
  from setMessage_effect [OF k0, of hex_digest] obtain db1
    where s1: "setMessage hex_digest empty_redis ?p = Inr ((), db1)"
      and l1: "lookup db1 (''message:'' @ ''t'') = None"
    by auto
  from l1 have k1: "set_key db1 (''message:'' @ topic ?p)"
    by (simp add: set_key_def)
  from setMessage_effect [OF k1, of hex_digest] obtain db2
    where s2: "setMessage hex_digest db1 ?p = Inr ((), db2)"
      and l2: "lookup db2 (''message:'' @ ''t'') = None"
    by auto
  have "setMessages hex_digest empty_redis [?p, ?p] = db2"
    by (simp add: s1 s2)
  moreover have "message_members db2 ''t'' = []"
    using l2 by (simp add: message_members_def)
  ultimately show ?thesis by simp
qed

end
